theory Spec2Isabelle
  imports Main "HOL-Library.Word"
begin

unbundle bit_operations_syntax

section \<open>The UTF-T to UTF-8 transcoder of pgutft.c\<close>

text \<open>
  The whole program is the function \<open>utft_to_utf8\<close> of \<open>pgutft.c\<close>: one loop over the
  input bytes that writes UTF-8 bytes into a buffer which grows by 512 bytes at a time.

  \<^item> \<open>unsigned char\<close> is an 8-bit word, \<open>unsigned long\<close> a 64-bit word (the LP64 layout
    of the GNU-Linux build named in the file's header); \<open>-\<close> on words wraps around.
  \<^item> The \<open>int\<close> variables \<open>indexT\<close>, \<open>index8\<close>, \<open>bufsize\<close> and \<open>maxT\<close> are natural
    numbers: they start at 0 or 512 and only grow, and the output of an input of \<open>N\<close>
    bytes has at most \<open>N + 1\<close> bytes (lemma \<open>output_length\<close>), so that no \<open>int\<close>
    overflows as long as \<open>N\<close> is below \<open>2^31 - 1024\<close>, which the model assumes.
  \<^item> Reading \<open>in->vl_dat[i]\<close> past the end of the input is undefined behaviour in C. The
    model makes it a value, \<open>OutOfBoundsRead\<close>; writing \<open>buffer[i]\<close> past the allocated
    size is \<open>BufferOverflow\<close>, which no input produces (lemma \<open>utft_to_utf8_error\<close>).
\<close>

type_synonym byte = "8 word"
type_synonym ulong = "64 word"

datatype error = OutOfBoundsRead | BufferOverflow

definition UTFT_BUFSIZE :: nat where
  "UTFT_BUFSIZE = 512"

text \<open>
  Modelled from the spec: the host's macro \<open>VARSIZE\<close> is not part of the sources. The spec
  gives the input as a sequence of bytes of known length \<open>N\<close>, and \<open>maxT\<close> is that length.
\<close>

definition VARSIZE :: "byte list \<Rightarrow> nat" where
  "VARSIZE dat = length dat"

text \<open>\<open>in->vl_dat[i]\<close>\<close>

definition vl_dat :: "byte list \<Rightarrow> nat \<Rightarrow> error + byte" where
  "vl_dat dat i = (if i < length dat then Inr (dat ! i) else Inl OutOfBoundsRead)"

subsection \<open>One unit\<close>

text \<open>
  Line 96: \<open>c = ((b3 & 127) | ((b2 & 127)<<7) | ((b1 & 127)<<14)) - 0x0F0000UL\<close>. The left
  operand is below \<open>2^21\<close>, so that its conversion from \<open>int\<close> to \<open>unsigned long\<close> keeps
  its value; the subtraction is the one of \<open>unsigned long\<close>.
\<close>

definition sentinel_c :: "byte \<Rightarrow> byte \<Rightarrow> byte \<Rightarrow> ulong" where
  "sentinel_c b1 b2 b3 =
     ((ucast b3 AND 127) OR push_bit 7 (ucast b2 AND 127) OR push_bit 14 (ucast b1 AND 127))
       - 0x0F0000"

text \<open>
  Lines 98 to 119: the bytes that the branch of \<open>b == 0x9B\<close> stores for the code point
  \<open>c\<close>, in the order of the assignments \<open>buffer[index8++] = ...\<close>. The assignment to an
  \<open>unsigned char\<close> keeps the low 8 bits (\<open>ucast\<close>).
\<close>

definition sentinel_utf8 :: "ulong \<Rightarrow> byte list" where
  "sentinel_utf8 c =
     (if c < 0x7F then
        [ucast c]
      else if c < 0x07FF then
        [ucast (0xC0 OR drop_bit 6 (c AND 0x7C0)),
         ucast (push_bit 6 0x02 OR (c AND 0x3F))]
      else if c < 0xFFFF then
        [ucast (0xE0 OR drop_bit 12 (c AND 0xF000)),
         ucast (push_bit 6 0x02 OR drop_bit 6 (c AND 0xFC0)),
         ucast (push_bit 6 0x02 OR (c AND 0x3F))]
      else
        [ucast (0xF0 OR drop_bit 18 (c AND 0xF000)),
         ucast (push_bit 6 0x02 OR drop_bit 12 (c AND 0x3F00)),
         ucast (push_bit 6 0x02 OR drop_bit 6 (c AND 0xFC0)),
         ucast (push_bit 6 0x02 OR (c AND 0x3F))])"

text \<open>Lines 122 to 128: the branch of a byte with the high bit set, \<open>c = b\<close>.\<close>

definition highbit_utf8 :: "byte \<Rightarrow> byte list" where
  "highbit_utf8 b =
     (let c = (ucast b :: ulong) in
      [ucast (0xC0 OR drop_bit 6 (c AND 0x7C0)),
       ucast (push_bit 6 0x02 OR (c AND 0x3F))])"

text \<open>
  Lines 84 to 133 without the buffer: the bytes one iteration stores and the value of
  \<open>indexT\<close> after it. The three reads of the first branch come before anything is stored.
\<close>

definition unit_at :: "byte list \<Rightarrow> nat \<Rightarrow> error + (byte list \<times> nat)" where
  "unit_at dat indexT =
     (case vl_dat dat indexT of
        Inl e \<Rightarrow> Inl e
      | Inr b \<Rightarrow>
          if b = 0x9B then
            (case vl_dat dat (indexT + 1) of
               Inl e \<Rightarrow> Inl e
             | Inr b1 \<Rightarrow>
                 (case vl_dat dat (indexT + 2) of
                    Inl e \<Rightarrow> Inl e
                  | Inr b2 \<Rightarrow>
                      (case vl_dat dat (indexT + 3) of
                         Inl e \<Rightarrow> Inl e
                       | Inr b3 \<Rightarrow> Inr (sentinel_utf8 (sentinel_c b1 b2 b3), indexT + 4))))
          else if b AND push_bit 7 1 \<noteq> 0 then
            Inr (highbit_utf8 b, indexT + 2)
          else
            Inr ([b], indexT + 1))"

subsection \<open>The buffer\<close>

record state =
  indexT :: nat
  index8 :: nat
  bufsize :: nat
  buffer :: "byte list"

text \<open>
  \<open>palloc\<close> and \<open>repalloc\<close>: the bytes of a fresh allocation are not initialised; the model
  fills them with 0, and no byte is read before it was stored.
\<close>

definition palloc :: "nat \<Rightarrow> byte list" where
  "palloc n = replicate n 0"

definition repalloc :: "byte list \<Rightarrow> nat \<Rightarrow> byte list" where
  "repalloc buf n = take n buf @ replicate (n - length buf) 0"

text \<open>\<open>buffer[index8++] = v\<close>, for each byte of a unit in turn.\<close>

fun store :: "byte list \<Rightarrow> state \<Rightarrow> error + state" where
  "store [] st = Inr st"
| "store (v # vs) st =
     (if index8 st < length (buffer st) then
        store vs (st\<lparr>buffer := (buffer st)[index8 st := v], index8 := index8 st + 1\<rparr>)
      else Inl BufferOverflow)"

text \<open>Lines 135 to 138.\<close>

definition grow :: "state \<Rightarrow> state" where
  "grow st =
     (if int (index8 st) > int (bufsize st) - 4 then
        st\<lparr>bufsize := bufsize st + UTFT_BUFSIZE,
           buffer := repalloc (buffer st) (bufsize st + UTFT_BUFSIZE)\<rparr>
      else st)"

subsection \<open>The loop and the function\<close>

text \<open>
  Lines 84 to 138, one pass through the body of the loop: the unit is read and \<open>indexT\<close>
  moves on, its bytes are stored, and the buffer grows when fewer than 4 bytes are free.
\<close>

definition iteration :: "byte list \<Rightarrow> state \<Rightarrow> error + state" where
  "iteration dat st =
     (case unit_at dat (indexT st) of
        Inl e \<Rightarrow> Inl e
      | Inr (bs, i) \<Rightarrow>
          (case store bs st of
             Inl e \<Rightarrow> Inl e
           | Inr st' \<Rightarrow> Inr (grow (st'\<lparr>indexT := i\<rparr>))))"

text \<open>Lines 83 to 139: \<open>while (indexT < maxT)\<close>.\<close>

function scan :: "nat \<Rightarrow> byte list \<Rightarrow> state \<Rightarrow> error + state" where
  "scan maxT dat st =
     (if indexT st < maxT then
        (case iteration dat st of
           Inl e \<Rightarrow> Inl e
         | Inr st' \<Rightarrow> scan maxT dat st')
      else Inr st)"
  by pat_completeness auto
termination
  by (relation "measure (\<lambda>(maxT, dat, st). maxT - indexT st)")
     (auto simp: iteration_def unit_at_def grow_def split: sum.splits if_splits)

declare scan.simps [simp del]

definition init_state :: state where
  "init_state = \<lparr>indexT = 0, index8 = 0, bufsize = UTFT_BUFSIZE, buffer = palloc UTFT_BUFSIZE\<rparr>"

text \<open>
  Lines 141 to 147: the result is the first \<open>index8\<close> bytes of the buffer (\<open>memcpy\<close>).
  Modelled from the spec: the host's macros \<open>SET_VARSIZE\<close> and \<open>VARHDRSZ\<close> are not part of
  the sources. The spec gives the result as the buffer truncated to exactly its used
  length.
\<close>

definition utft_to_utf8 :: "byte list \<Rightarrow> error + byte list" where
  "utft_to_utf8 dat =
     (case scan (VARSIZE dat) dat init_state of
        Inl e \<Rightarrow> Inl e
      | Inr st \<Rightarrow> Inr (take (index8 st) (buffer st)))"

subsection \<open>Notions the properties are stated with\<close>

text \<open>The value of \<open>indexT\<close> when the loop has ended.\<close>

definition final_cursor :: "byte list \<Rightarrow> error + nat" where
  "final_cursor dat =
     (case scan (VARSIZE dat) dat init_state of
        Inl e \<Rightarrow> Inl e
      | Inr st \<Rightarrow> Inr (indexT st))"

text \<open>
  The 21-bit value of a unit of 4 bytes as the spec writes it,
  \<open>(b1&0x7F)<<14 | (b2&0x7F)<<7 | (b3&0x7F)\<close>.
\<close>

definition payload :: "byte \<Rightarrow> byte \<Rightarrow> byte \<Rightarrow> ulong" where
  "payload b1 b2 b3 =
     push_bit 14 (ucast (b1 AND 0x7F)) OR push_bit 7 (ucast (b2 AND 0x7F)) OR ucast (b3 AND 0x7F)"

text \<open>One test of the loop condition and, where it holds, one pass through the body.\<close>

definition pass :: "nat \<Rightarrow> byte list \<Rightarrow> error + state \<Rightarrow> error + state" where
  "pass maxT dat r =
     (case r of
        Inl e \<Rightarrow> Inl e
      | Inr st \<Rightarrow> if indexT st < maxT then iteration dat st else Inr st)"

text \<open>
  The cursor positions of a call: the values of \<open>indexT\<close> with which the body of the loop
  is entered, from \<open>i\<close> on. Lemma \<open>cursors_loop_states\<close> below relates them to the states
  of the loop.
\<close>

function cursors :: "byte list \<Rightarrow> nat \<Rightarrow> nat list" where
  "cursors dat i =
     (if i < length dat then
        i # (case unit_at dat i of
               Inl e \<Rightarrow> []
             | Inr (bs, i') \<Rightarrow> cursors dat i')
      else [])"
  by pat_completeness auto
termination
  by (relation "measure (\<lambda>(dat, i). length dat - i)")
     (auto simp: unit_at_def split: sum.splits if_splits)

declare cursors.simps [simp del]

text \<open>The results of two calls, one after the other.\<close>

definition append_results :: "error + byte list \<Rightarrow> error + byte list \<Rightarrow> error + byte list" where
  "append_results r1 r2 =
     (case r1 of
        Inl e \<Rightarrow> Inl e
      | Inr out1 \<Rightarrow> (case r2 of Inl e \<Rightarrow> Inl e | Inr out2 \<Rightarrow> Inr (out1 @ out2)))"

text \<open>
  UTF-8 as the spec's table of byte patterns states it, to compare with the bytes the code
  stores: \<open>110xxxxx 10xxxxxx\<close> from bits 10..6 and 5..0, and
  \<open>11110xxx 10xxxxxx 10xxxxxx 10xxxxxx\<close> from bits 20..18, 17..12, 11..6 and 5..0.
\<close>

definition bits :: "nat \<Rightarrow> nat \<Rightarrow> ulong \<Rightarrow> ulong" where
  "bits hi lo c = take_bit (Suc hi - lo) (drop_bit lo c)"

definition utf8_2byte :: "ulong \<Rightarrow> byte list" where
  "utf8_2byte c = [ucast (0xC0 OR bits 10 6 c), ucast (0x80 OR bits 5 0 c)]"

definition utf8_4byte :: "ulong \<Rightarrow> byte list" where
  "utf8_4byte c =
     [ucast (0xF0 OR bits 20 18 c), ucast (0x80 OR bits 17 12 c),
      ucast (0x80 OR bits 11 6 c), ucast (0x80 OR bits 5 0 c)]"

text \<open>
  Modelled from the spec: the encoder to UTF-T is not part of the sources. The spec's
  scheme is: ASCII as single bytes, every other code point as a unit of 4 bytes led by
  the sentinel \<open>0x9B\<close>, whose three following bytes carry the 21 bits of the code point
  plus \<open>0x0F0000\<close> in their low 7 bits each. The high bit of the three bytes is set, as
  in the examples \<open>9BBC81E7\<close>, \<open>9BBCC1AC\<close> and \<open>9BC3A29E\<close> of the source's comment.
\<close>

definition utft_encode :: "ulong \<Rightarrow> byte list" where
  "utft_encode c =
     (if c < 0x80 then [ucast c]
      else
        (let p = c + 0x0F0000 in
         [0x9B,
          ucast (0x80 OR bits 20 14 p),
          ucast (0x80 OR bits 13 7 p),
          ucast (0x80 OR bits 6 0 p)]))"

subsection \<open>The function without the buffer\<close>

text \<open>The bytes stored so far, and what the buffer satisfies at the test of the loop.\<close>

definition written :: "state \<Rightarrow> byte list" where
  "written st = take (index8 st) (buffer st)"

definition buf_ok :: "state \<Rightarrow> bool" where
  "buf_ok st \<longleftrightarrow> index8 st + 4 \<le> bufsize st \<and> length (buffer st) = bufsize st"

text \<open>
  The bytes of the units from cursor \<open>i\<close> on and the cursor after the last of them: what
  the loop computes, without the buffer.
\<close>

function units :: "byte list \<Rightarrow> nat \<Rightarrow> error + (byte list \<times> nat)" where
  "units dat i =
     (if i < length dat then
        (case unit_at dat i of
           Inl e \<Rightarrow> Inl e
         | Inr (bs, i') \<Rightarrow>
             (case units dat i' of
                Inl e \<Rightarrow> Inl e
              | Inr (rest, k) \<Rightarrow> Inr (bs @ rest, k)))
      else Inr ([], i))"
  by pat_completeness auto
termination
  by (relation "measure (\<lambda>(dat, i). length dat - i)")
     (auto simp: unit_at_def split: sum.splits if_splits)

declare units.simps [simp del]

section \<open>The loop computes the bytes of the units\<close>

lemma unit_at_cases:
  assumes "unit_at dat i = Inr (bs, i')"
  shows "i < length dat \<and> i < i' \<and> length bs \<le> 4 \<and> (i' = i + 1 \<or> i' = i + 2 \<or> i' = i + 4)"
  using assms
  by (auto simp: unit_at_def vl_dat_def sentinel_utf8_def highbit_utf8_def Let_def
           split: sum.splits if_splits)

lemma store_ok:
  "index8 st + length bs \<le> length (buffer st) \<Longrightarrow>
   \<exists>st'. store bs st = Inr st' \<and> indexT st' = indexT st \<and> bufsize st' = bufsize st \<and>
         index8 st' = index8 st + length bs \<and> length (buffer st') = length (buffer st) \<and>
         written st' = written st @ bs"
proof (induction bs arbitrary: st)
  case Nil
  then show ?case by simp
next
  case (Cons v vs)
  let ?st1 = "st\<lparr>buffer := (buffer st)[index8 st := v], index8 := index8 st + 1\<rparr>"
  from Cons.prems have lt: "index8 st < length (buffer st)" by simp
  from Cons.prems have "index8 ?st1 + length vs \<le> length (buffer ?st1)" by simp
  from Cons.IH [OF this] obtain st' where
    st': "store vs ?st1 = Inr st'" "indexT st' = indexT ?st1" "bufsize st' = bufsize ?st1"
      "index8 st' = index8 ?st1 + length vs" "length (buffer st') = length (buffer ?st1)"
      "written st' = written ?st1 @ vs"
    by blast
  have "written ?st1 = written st @ [v]"
    using lt by (simp add: written_def take_Suc_conv_app_nth)
  with st' lt show ?case by simp
qed

lemma grow_ok:
  assumes "index8 st \<le> bufsize st" "length (buffer st) = bufsize st"
  shows "buf_ok (grow st) \<and> written (grow st) = written st \<and> indexT (grow st) = indexT st"
  using assms
  by (auto simp: grow_def buf_ok_def written_def repalloc_def UTFT_BUFSIZE_def)

lemma iteration_ok:
  assumes ok: "buf_ok st" and u: "unit_at dat (indexT st) = Inr (bs, i)"
  shows "\<exists>st'. iteration dat st = Inr st' \<and> buf_ok st' \<and> indexT st' = i \<and>
               written st' = written st @ bs"
proof -
  from u have len: "length bs \<le> 4" by (simp add: unit_at_cases)
  with ok have "index8 st + length bs \<le> length (buffer st)" by (simp add: buf_ok_def)
  from store_ok [OF this] obtain s1 where
    s1: "store bs st = Inr s1" "bufsize s1 = bufsize st" "index8 s1 = index8 st + length bs"
      "length (buffer s1) = length (buffer st)" "written s1 = written st @ bs"
    by blast
  let ?s2 = "s1\<lparr>indexT := i\<rparr>"
  have "index8 ?s2 \<le> bufsize ?s2" "length (buffer ?s2) = bufsize ?s2"
    using s1 ok len by (simp_all add: buf_ok_def)
  from grow_ok [OF this] have "buf_ok (grow ?s2)" "written (grow ?s2) = written ?s2"
    "indexT (grow ?s2) = i" by simp_all
  moreover have "written ?s2 = written s1" by (simp add: written_def)
  moreover have "iteration dat st = Inr (grow ?s2)" using u s1 by (simp add: iteration_def)
  ultimately show ?thesis using s1 by simp
qed

lemma iteration_err:
  "unit_at dat (indexT st) = Inl e \<Longrightarrow> iteration dat st = Inl e"
  by (simp add: iteration_def)

lemma scan_units:
  "buf_ok st \<Longrightarrow>
   (case scan (length dat) dat st of Inl e \<Rightarrow> units dat (indexT st) = Inl e
    | Inr st' \<Rightarrow> \<exists>rest. units dat (indexT st) = Inr (rest, indexT st')
        \<and> written st' = written st @ rest \<and> buf_ok st')"
proof (induction "length dat" dat st rule: scan.induct)
  case (1 dat st)
  show ?case
  proof (cases "indexT st < length dat")
    case False
    then show ?thesis using "1.prems" by (simp add: scan.simps units.simps)
  next
    case True
    show ?thesis
    proof (cases "unit_at dat (indexT st)")
      case (Inl e)
      then show ?thesis using True
        by (simp add: scan.simps [of _ _ st] units.simps [of _ "indexT st"] iteration_err)
    next
      case (Inr p)
      obtain bs i where p: "p = (bs, i)" by (cases p)
      from iteration_ok [OF "1.prems" Inr [unfolded p]] obtain st' where
        st': "iteration dat st = Inr st'" "buf_ok st'" "indexT st' = i"
          "written st' = written st @ bs" by blast
      from "1.hyps" [OF True st'(1) st'(2)] st' Inr p True show ?thesis
        by (auto simp: scan.simps [of _ _ st] units.simps [of _ "indexT st"]
                 split: sum.splits)
    qed
  qed
qed

lemma buf_ok_init: "buf_ok init_state"
  by (simp add: buf_ok_def init_state_def palloc_def UTFT_BUFSIZE_def)

lemma utft_to_utf8_units:
  "utft_to_utf8 dat = (case units dat 0 of Inl e \<Rightarrow> Inl e | Inr (out, k) \<Rightarrow> Inr out)"
  using scan_units [OF buf_ok_init, of dat]
  by (auto simp: utft_to_utf8_def VARSIZE_def written_def init_state_def split: sum.splits)

lemma final_cursor_units:
  "final_cursor dat = (case units dat 0 of Inl e \<Rightarrow> Inl e | Inr (out, k) \<Rightarrow> Inr k)"
  using scan_units [OF buf_ok_init, of dat]
  by (auto simp: final_cursor_def VARSIZE_def init_state_def split: sum.splits)

section \<open>The branches of a unit\<close>

lemma ascii_bits:
  fixes b :: byte
  assumes "b < 0x80"
  shows "b \<noteq> 0x9B" and "b AND push_bit 7 1 = 0"
proof -
  from assms show "b \<noteq> 0x9B" by auto
  from assms have "b < 2 ^ 7" by simp
  then have "b AND mask 7 = b" by (rule less_mask_eq)
  then have "b AND push_bit 7 1 = (b AND mask 7) AND push_bit 7 1" by simp
  also have "\<dots> = b AND (mask 7 AND push_bit 7 1)" by (simp only: and.assoc)
  also have "mask 7 AND push_bit 7 1 = (0 :: byte)" by (simp add: mask_eq_exp_minus_1)
  finally show "b AND push_bit 7 1 = 0" by simp
qed

lemma mask_consts:
  "(0x7C0 :: ulong) = push_bit 6 (mask 5)"
  "(0x3F :: ulong) = mask 6"
  "(127 :: ulong) = mask 7"
  "(0xC0 :: ulong) = push_bit 6 (mask 2)"
  "(0x80 :: ulong) = push_bit 7 1"
  by (simp_all add: mask_eq_exp_minus_1)

lemma low_bits: "(c :: ulong) AND 0x3F = bits 5 0 c"
  by (simp add: bits_def take_bit_eq_mask mask_consts)

lemma mid_bits: "drop_bit 6 ((c :: ulong) AND 0x7C0) = bits 10 6 c"
  unfolding bits_def mask_consts
  by (rule bit_eqI) (auto simp add: bit_simps)

lemma highbit_utf8_eq: "highbit_utf8 b = utf8_2byte (ucast b)"
  unfolding highbit_utf8_def utf8_2byte_def Let_def low_bits mid_bits by simp


lemma unit_at_ascii:
  assumes "i < length dat" "dat ! i < 0x80"
  shows "unit_at dat i = Inr ([dat ! i], i + 1)"
  using assms ascii_bits [of "dat ! i"] by (simp add: unit_at_def vl_dat_def)

lemma unit_at_highbit:
  assumes "i < length dat" "dat ! i AND 0x80 \<noteq> 0" "dat ! i \<noteq> 0x9B"
  shows "unit_at dat i = Inr (highbit_utf8 (dat ! i), i + 2)"
  using assms by (simp add: unit_at_def vl_dat_def)

lemma unit_at_sentinel:
  assumes "i + 3 < length dat" "dat ! i = 0x9B"
  shows "unit_at dat i =
    Inr (sentinel_utf8 (sentinel_c (dat ! (i + 1)) (dat ! (i + 2)) (dat ! (i + 3))), i + 4)"
  using assms by (simp add: unit_at_def vl_dat_def)

lemma units_single:
  assumes "unit_at [b] 0 = Inr (bs, k)"
  shows "units [b] 0 = Inr (bs, k)"
proof -
  from assms have "0 < k" by (auto simp: unit_at_def vl_dat_def split: if_splits)
  then have "units [b] k = Inr ([], k)" by (simp add: units.simps [of _ k])
  with assms show ?thesis by (simp add: units.simps [of _ 0])
qed

lemma low7: "(w :: ulong) AND 127 = take_bit 7 w" "(b :: byte) AND 0x7F = take_bit 7 b"
  by (simp_all add: take_bit_eq_mask mask_eq_exp_minus_1)

lemma sentinel_c_payload: "sentinel_c b1 b2 b3 = payload b1 b2 b3 - 0x0F0000"
proof -
  have "(ucast b3 AND 127) OR push_bit 7 (ucast b2 AND 127) OR push_bit 14 (ucast b1 AND 127)
      = payload b1 b2 b3"
    unfolding payload_def low7
    by (rule bit_eqI) (auto simp add: bit_simps)
  then show ?thesis by (simp add: sentinel_c_def)
qed

lemma payload_less: "payload b1 b2 b3 < 2 ^ 21"
proof -
  have "take_bit 21 (payload b1 b2 b3) = payload b1 b2 b3"
    unfolding payload_def low7
    by (rule bit_eqI) (auto simp add: bit_simps)
  then have "payload b1 b2 b3 = payload b1 b2 b3 AND mask 21"
    by (simp add: take_bit_eq_mask)
  moreover have "payload b1 b2 b3 AND mask 21 < 2 ^ 21"
    by (rule and_mask_less_size) (simp add: word_size)
  ultimately show ?thesis by simp
qed

lemma sentinel_c_wrapped:
  assumes "payload b1 b2 b3 < 0x0F0000"
  shows "unat (sentinel_c b1 b2 b3) = unat (payload b1 b2 b3) + 2 ^ 64 - 0x0F0000"
  using assms by (simp add: sentinel_c_payload unat_sub_if' word_less_nat_alt)

lemma sentinel_utf8_large:
  assumes "\<not> c < 0xFFFF"
  shows "sentinel_utf8 c =
    [ucast (0xF0 OR drop_bit 18 (c AND 0xF000)),
     ucast (push_bit 6 0x02 OR drop_bit 12 (c AND 0x3F00)),
     ucast (push_bit 6 0x02 OR drop_bit 6 (c AND 0xFC0)),
     ucast (push_bit 6 0x02 OR (c AND 0x3F))]"
proof -
  from assms have "\<not> c < 0x7F" "\<not> c < 0x07FF" by (simp_all add: word_less_nat_alt)
  with assms show ?thesis unfolding sentinel_utf8_def by (simp only: if_False)
qed

lemma bit_128: "bit (128 :: int) n \<longleftrightarrow> n = 7"
  using bit_exp_iff [where ?'a = int, of 7 n] by auto

lemma payload_encoded:
  "payload (ucast (0x80 OR bits 20 14 p)) (ucast (0x80 OR bits 13 7 p)) (ucast (0x80 OR bits 6 0 p))
     = take_bit 21 p"
  unfolding payload_def low7 bits_def
  by (rule bit_eqI) (auto simp add: bit_simps bit_128)

lemma offset_fits:
  fixes c :: ulong
  assumes "c \<le> 0x10FFFF"
  shows "take_bit 21 (c + 0x0F0000) = c + 0x0F0000"
proof -
  from assms have "unat c \<le> 0x10FFFF" by (simp add: word_le_nat_alt)
  then have "unat (c + 0x0F0000) = unat c + 0x0F0000"
    by (simp add: unat_word_ariths)
  with \<open>unat c \<le> 0x10FFFF\<close> have "c + 0x0F0000 < 2 ^ 21"
    by (simp add: word_less_nat_alt)
  then have "(c + 0x0F0000) AND mask 21 = c + 0x0F0000" by (rule less_mask_eq)
  then show ?thesis by (simp add: take_bit_eq_mask)
qed

lemma ucast_ascii:
  fixes c :: ulong
  assumes "c < 0x80"
  shows "(ucast (ucast c :: byte) :: ulong) = c" and "(ucast c :: byte) < 0x80"
proof -
  from assms have "c < 2 ^ 7" by simp
  then have m: "c AND mask 7 = c" by (rule less_mask_eq)
  have "(ucast (ucast (c AND mask 7) :: byte) :: ulong) = c AND mask 7"
    unfolding take_bit_eq_mask [symmetric]
    by (rule bit_eqI) (auto simp add: bit_simps)
  with m show "(ucast (ucast c :: byte) :: ulong) = c" by simp
  have "(ucast (c AND mask 7) :: byte) = ucast (c AND mask 7) AND mask 7"
    unfolding take_bit_eq_mask [symmetric]
    by (rule bit_eqI) (auto simp add: bit_simps)
  moreover have "(ucast (c AND mask 7) :: byte) AND mask 7 < 2 ^ 7"
    by (rule and_mask_less_size) (simp add: word_size)
  ultimately show "(ucast c :: byte) < 0x80" using m by simp
qed

section \<open>Units and the end of the input\<close>

lemma unit_at_shift:
  "unit_at (pre @ dat) (length pre + j) =
     (case unit_at dat j of Inl e \<Rightarrow> Inl e | Inr (bs, k) \<Rightarrow> Inr (bs, length pre + k))"
proof -
  have n: "(pre @ dat) ! (length pre + j + d) = dat ! (j + d)" for d
    by (simp add: nth_append)
  have l: "length pre + j + d < length (pre @ dat) \<longleftrightarrow> j + d < length dat" for d
    by simp
  show ?thesis
    using n [of 0] n [of 1] n [of 2] n [of 3] l [of 0] l [of 1] l [of 2] l [of 3]
    by (simp add: unit_at_def vl_dat_def)
qed

lemma units_shift:
  "units (pre @ dat) (length pre + j) =
     (case units dat j of Inl e \<Rightarrow> Inl e | Inr (out, k) \<Rightarrow> Inr (out, length pre + k))"
proof (induction dat j rule: units.induct)
  case (1 dat i)
  show ?case
  proof (cases "i < length dat")
    case False
    then show ?thesis
      by (simp add: units.simps [of dat i] units.simps [of "pre @ dat"])
  next
    case True
    show ?thesis
    proof (cases "unit_at dat i")
      case (Inl e)
      with True show ?thesis
        by (simp add: units.simps [of dat i] units.simps [of "pre @ dat" "length pre + i"]
              unit_at_shift)
    next
      case (Inr r)
      obtain bs i' where r: "r = (bs, i')" by (cases r)
      from "1.IH" [OF True Inr [unfolded r] refl] True Inr r show ?thesis
        by (simp add: units.simps [of dat i] units.simps [of "pre @ dat" "length pre + i"]
              unit_at_shift split: sum.splits)
    qed
  qed
qed

lemma unit_at_extend:
  assumes "unit_at dat i = Inr r"
  shows "unit_at (dat @ rest) i = Inr r"
  using assms
  by (auto simp: unit_at_def vl_dat_def nth_append split: if_splits)

lemma units_cursor_mono:
  "units dat i = Inr (out, k) \<Longrightarrow> i \<le> k"
proof (induction dat i arbitrary: out k rule: units.induct)
  case (1 dat i)
  show ?case
  proof (cases "i < length dat")
    case False
    with "1.prems" show ?thesis by (simp add: units.simps [of dat i])
  next
    case True
    with "1.prems" obtain bs i' rest where
      u: "unit_at dat i = Inr (bs, i')" and r: "units dat i' = Inr (rest, k)"
      by (auto simp: units.simps [of dat i] split: sum.splits)
    from "1.IH" [OF True u refl r] unit_at_cases [OF u] show ?thesis by simp
  qed
qed

lemma units_append:
  "units in1 i = Inr (out1, length in1) \<Longrightarrow>
   units (in1 @ in2) i =
     (case units in2 0 of Inl e \<Rightarrow> Inl e | Inr (out2, k) \<Rightarrow> Inr (out1 @ out2, length in1 + k))"
proof (induction in1 i arbitrary: out1 rule: units.induct)
  case (1 in1 i)
  show ?case
  proof (cases "i < length in1")
    case False
    with "1.prems" have "i = length in1" "out1 = []" by (simp_all add: units.simps [of in1 i])
    with units_shift [of in1 in2 0] show ?thesis by (simp split: sum.splits)
  next
    case True
    with "1.prems" obtain bs i' rest where
      u: "unit_at in1 i = Inr (bs, i')" and r: "units in1 i' = Inr (rest, length in1)"
      and o: "out1 = bs @ rest"
      by (auto simp: units.simps [of in1 i] split: sum.splits)
    from "1.IH" [OF True u refl r] unit_at_extend [OF u, of in2] True o show ?thesis
      by (simp add: units.simps [of "in1 @ in2" i] split: sum.splits)
  qed
qed

section \<open>The byte after a byte with the high bit set\<close>

lemma unit_at_update_later:
  assumes "unit_at dat j = Inr (bs, j')" and "j' \<le> k"
  shows "unit_at (dat[k := v]) j = Inr (bs, j')"
  using assms
  by (auto simp: unit_at_def vl_dat_def split: if_splits)

lemma unit_at_update_earlier:
  assumes "k < j"
  shows "unit_at (dat[k := v]) j = unit_at dat j"
  using assms by (simp add: unit_at_def vl_dat_def)

lemma units_update_earlier:
  "k < j \<Longrightarrow> units (dat[k := v]) j = units dat j"
proof (induction dat j rule: units.induct)
  case (1 dat i)
  show ?case
  proof (cases "i < length dat")
    case False
    then show ?thesis by (simp add: units.simps [of _ i])
  next
    case True
    show ?thesis
    proof (cases "unit_at dat i")
      case (Inl e)
      with True "1.prems" show ?thesis
        by (simp add: units.simps [of _ i] unit_at_update_earlier)
    next
      case (Inr r)
      obtain bs i' where r: "r = (bs, i')" by (cases r)
      from unit_at_cases [OF Inr [unfolded r]] "1.prems" have "k < i'" by simp
      from "1.IH" [OF True Inr [unfolded r] refl this] True Inr r "1.prems" show ?thesis
        by (simp add: units.simps [of _ i] unit_at_update_earlier)
    qed
  qed
qed

lemma cursors_step:
  assumes "k \<in> set (cursors dat i)" and "k \<noteq> i"
  obtains bs i' where "i < length dat" and "unit_at dat i = Inr (bs, i')"
    and "k \<in> set (cursors dat i')"
proof (cases "unit_at dat i")
  case (Inl e)
  with assms show ?thesis by (simp add: cursors.simps [of dat i] split: if_splits)
next
  case (Inr r)
  obtain bs i' where "r = (bs, i')" by (cases r)
  with Inr assms that show ?thesis by (simp add: cursors.simps [of dat i] split: if_splits)
qed

lemma cursors_bounds:
  "k \<in> set (cursors dat i) \<Longrightarrow> i \<le> k \<and> k < length dat"
proof (induction dat i rule: cursors.induct)
  case (1 dat i)
  show ?case
  proof (cases "k = i")
    case True
    with "1.prems" show ?thesis by (simp add: cursors.simps [of dat i] split: if_splits)
  next
    case False
    from "1.prems" False obtain bs i' where lt: "i < length dat"
      and u: "unit_at dat i = Inr (bs, i')" and k: "k \<in> set (cursors dat i')"
      by (rule cursors_step)
    from "1.IH" [OF lt u refl k] unit_at_cases [OF u] show ?thesis by simp
  qed
qed

lemma units_skipped_byte:
  "i \<in> set (cursors dat j) \<Longrightarrow> dat ! i AND 0x80 \<noteq> 0 \<Longrightarrow> dat ! i \<noteq> 0x9B \<Longrightarrow>
   units (dat[i + 1 := v]) j = units dat j"
proof (induction dat j rule: cursors.induct)
  case (1 dat j)
  let ?dat = "dat[i + 1 := v]"
  from cursors_bounds [OF "1.prems"(1)] have b: "j \<le> i" "i < length dat" by simp_all
  show ?case
  proof (cases "i = j")
    case True
    have u: "unit_at dat j = Inr (highbit_utf8 (dat ! j), j + 2)"
      using unit_at_highbit [of j dat] b "1.prems" True by simp
    have u': "unit_at ?dat j = Inr (highbit_utf8 (dat ! j), j + 2)"
      using unit_at_highbit [of j ?dat] b "1.prems" True by simp
    have "units ?dat (j + 2) = units dat (j + 2)"
      using True by (simp add: units_update_earlier)
    with u u' b True show ?thesis
      by (simp add: units.simps [of _ j])
  next
    case False
    from "1.prems"(1) False obtain bs j' where lt: "j < length dat"
      and u: "unit_at dat j = Inr (bs, j')" and k: "i \<in> set (cursors dat j')"
      by (rule cursors_step)
    from cursors_bounds [OF k] have "j' \<le> i + 1" by simp
    from unit_at_update_later [OF u this] have u': "unit_at ?dat j = Inr (bs, j')" .
    from "1.IH" [OF lt u refl k "1.prems"(2,3)] u u' lt show ?thesis
      by (simp add: units.simps [of _ j])
  qed
qed

section \<open>The cursor and the end of the loop\<close>

lemma indexT_grow: "indexT (grow st) = indexT st"
  by (simp add: grow_def)

lemma iteration_cursor:
  assumes "iteration dat st = Inr st'"
  shows "indexT st' = indexT st + 1 \<or> indexT st' = indexT st + 2 \<or> indexT st' = indexT st + 4"
proof (cases "unit_at dat (indexT st)")
  case (Inl e)
  with assms show ?thesis by (simp add: iteration_def)
next
  case (Inr r)
  obtain bs i where r: "r = (bs, i)" by (cases r)
  with assms Inr have "indexT st' = i"
    by (auto simp: iteration_def indexT_grow split: sum.splits)
  with unit_at_cases [OF Inr [unfolded r]] show ?thesis by simp
qed

lemma scan_passes:
  "\<exists>k\<le>maxT - indexT st. (pass maxT dat ^^ k) (Inr st) = scan maxT dat st"
proof (induction maxT dat st rule: scan.induct)
  case (1 maxT dat st)
  show ?case
  proof (cases "indexT st < maxT")
    case False
    then have "(pass maxT dat ^^ 0) (Inr st) = scan maxT dat st"
      by (simp add: scan.simps [of _ _ st])
    then show ?thesis by blast
  next
    case True
    show ?thesis
    proof (cases "iteration dat st")
      case (Inl e)
      with True have "(pass maxT dat ^^ 1) (Inr st) = scan maxT dat st"
        by (simp add: scan.simps [of _ _ st] pass_def)
      moreover from True have "1 \<le> maxT - indexT st" by simp
      ultimately show ?thesis by blast
    next
      case (Inr st')
      from "1.IH" [OF True Inr] obtain k where
        k: "k \<le> maxT - indexT st'" "(pass maxT dat ^^ k) (Inr st') = scan maxT dat st'"
        by blast
      from iteration_cursor [OF Inr] have "indexT st < indexT st'" by auto
      with k(1) True have "Suc k \<le> maxT - indexT st" by simp
      moreover have "(pass maxT dat ^^ Suc k) (Inr st) = scan maxT dat st"
        using True Inr k(2) by (simp add: funpow_swap1 scan.simps [of _ _ st] pass_def)
      ultimately show ?thesis by blast
    qed
  qed
qed

lemma unit_at_error: "unit_at dat i = Inl e \<Longrightarrow> e = OutOfBoundsRead"
  by (auto simp: unit_at_def vl_dat_def split: if_splits)

lemma unit_at_end:
  "unit_at dat i = Inr (bs, i') \<Longrightarrow> i' \<le> length dat + 1"
  by (auto simp: unit_at_def vl_dat_def split: if_splits)

lemma units_end:
  "(case units dat i of
      Inl e \<Rightarrow> e = OutOfBoundsRead
    | Inr (out, k) \<Rightarrow> if i < length dat then length dat \<le> k \<and> k \<le> length dat + 1 else k = i)"
proof (induction dat i rule: units.induct)
  case (1 dat i)
  show ?case
  proof (cases "i < length dat")
    case False
    then show ?thesis by (simp add: units.simps [of dat i])
  next
    case True
    show ?thesis
    proof (cases "unit_at dat i")
      case (Inl e)
      with True unit_at_error [OF Inl] show ?thesis by (simp add: units.simps [of dat i])
    next
      case (Inr r)
      obtain bs i' where r: "r = (bs, i')" by (cases r)
      from "1.IH" [OF True Inr [unfolded r] refl] unit_at_end [OF Inr [unfolded r]]
        True Inr r show ?thesis
        by (auto simp: units.simps [of dat i] split: sum.splits if_splits)
    qed
  qed
qed

section \<open>Checks of the model\<close>

text \<open>The only error is the read past the input, and the examples of the source's comment.\<close>

lemma utft_to_utf8_error: "utft_to_utf8 dat = Inl e \<Longrightarrow> e = OutOfBoundsRead"
  using units_end [where dat = dat and i = 0]
  by (auto simp: utft_to_utf8_units split: sum.splits)

lemma examples_of_the_comment:
  "utft_to_utf8 [0x41] = Inr [0x41]"
  "utft_to_utf8 [0x9B, 0xBC, 0x81, 0xE7] = Inr [0xC3, 0xA7]"
  "utft_to_utf8 [0x9B, 0xBC, 0xC1, 0xAC] = Inr [0xE2, 0x82, 0xAC]"
  "utft_to_utf8 [] = Inr []"
  by code_simp+

text \<open>
  The cursor positions are the values of \<open>indexT\<close> of the states in which the loop finds its
  condition true.
\<close>

lemma pass_Inl: "(pass maxT dat ^^ k) (Inl e) = Inl e"
  by (induction k) (simp_all add: pass_def)

lemma cursors_head: "i < length dat \<Longrightarrow> i \<in> set (cursors dat i)"
  by (simp add: cursors.simps [of dat i])

lemma cursors_next:
  "i < length dat \<Longrightarrow> unit_at dat i = Inr (bs, i') \<Longrightarrow> k \<in> set (cursors dat i') \<Longrightarrow>
   k \<in> set (cursors dat i)"
  by (simp add: cursors.simps [of dat i])

lemma cursors_are_passes:
  "i \<in> set (cursors dat j) \<Longrightarrow> buf_ok st \<Longrightarrow> indexT st = j \<Longrightarrow>
   \<exists>k st'. (pass (length dat) dat ^^ k) (Inr st) = Inr st' \<and> indexT st' = i"
proof (induction dat j arbitrary: st rule: cursors.induct)
  case (1 dat j)
  show ?case
  proof (cases "i = j")
    case True
    with "1.prems" have "(pass (length dat) dat ^^ 0) (Inr st) = Inr st \<and> indexT st = i" by simp
    then show ?thesis by blast
  next
    case False
    from "1.prems"(1) False obtain bs j' where lt: "j < length dat"
      and u: "unit_at dat j = Inr (bs, j')" and c: "i \<in> set (cursors dat j')"
      by (rule cursors_step)
    from iteration_ok [OF "1.prems"(2), of dat bs j'] u "1.prems"(3) obtain s1 where
      s1: "iteration dat st = Inr s1" "buf_ok s1" "indexT s1 = j'" by auto
    from "1.IH" [OF lt u refl c s1(2,3)] obtain k st' where
      k: "(pass (length dat) dat ^^ k) (Inr s1) = Inr st'" "indexT st' = i" by blast
    have "(pass (length dat) dat ^^ Suc k) (Inr st) = Inr st'"
      using k(1) s1(1) lt "1.prems"(3) by (simp add: funpow_swap1 pass_def)
    with k(2) show ?thesis by blast
  qed
qed

lemma passes_are_cursors:
  "(pass (length dat) dat ^^ k) (Inr st) = Inr st' \<Longrightarrow> buf_ok st \<Longrightarrow>
   indexT st' < length dat \<Longrightarrow> indexT st' \<in> set (cursors dat (indexT st))"
proof (induction k arbitrary: st)
  case 0
  then show ?case by (simp add: cursors_head)
next
  case (Suc k)
  from Suc.prems(1) have p: "(pass (length dat) dat ^^ k) (pass (length dat) dat (Inr st)) = Inr st'"
    by (simp add: funpow_swap1)
  show ?case
  proof (cases "indexT st < length dat")
    case False
    with p have "(pass (length dat) dat ^^ k) (Inr st) = Inr st'" by (simp add: pass_def)
    from Suc.IH [OF this Suc.prems(2,3)] show ?thesis .
  next
    case True
    show ?thesis
    proof (cases "unit_at dat (indexT st)")
      case (Inl e)
      with p True show ?thesis by (simp add: pass_def iteration_err pass_Inl)
    next
      case (Inr r)
      obtain bs i where r: "r = (bs, i)" by (cases r)
      from iteration_ok [OF Suc.prems(2) Inr [unfolded r]] obtain s1 where
        s1: "iteration dat st = Inr s1" "buf_ok s1" "indexT s1 = i" by blast
      with p True have "(pass (length dat) dat ^^ k) (Inr s1) = Inr st'" by (simp add: pass_def)
      from Suc.IH [OF this s1(2) Suc.prems(3)] s1(3)
      have "indexT st' \<in> set (cursors dat i)" by simp
      with True Inr r show ?thesis by (simp add: cursors_next)
    qed
  qed
qed

lemma cursors_loop_states:
  "i \<in> set (cursors dat 0) \<longleftrightarrow>
   i < length dat \<and>
   (\<exists>k st. (pass (VARSIZE dat) dat ^^ k) (Inr init_state) = Inr st \<and> indexT st = i)"
proof
  assume c: "i \<in> set (cursors dat 0)"
  have "indexT init_state = 0" by (simp add: init_state_def)
  from cursors_are_passes [OF c buf_ok_init this] cursors_bounds [OF c]
  show "i < length dat \<and>
    (\<exists>k st. (pass (VARSIZE dat) dat ^^ k) (Inr init_state) = Inr st \<and> indexT st = i)"
    by (simp add: VARSIZE_def)
next
  assume "i < length dat \<and>
    (\<exists>k st. (pass (VARSIZE dat) dat ^^ k) (Inr init_state) = Inr st \<and> indexT st = i)"
  then obtain k st where "(pass (length dat) dat ^^ k) (Inr init_state) = Inr st"
    and "indexT st = i" and "i < length dat" by (auto simp: VARSIZE_def)
  with passes_are_cursors [OF this(1) buf_ok_init] show "i \<in> set (cursors dat 0)"
    by (simp add: init_state_def)
qed

text \<open>The output of an input of \<open>N\<close> bytes has at most \<open>N + 1\<close> bytes.\<close>

lemma unit_at_length:
  "unit_at dat i = Inr (bs, i') \<Longrightarrow> length bs + i \<le> i'"
  by (auto simp: unit_at_def vl_dat_def sentinel_utf8_def highbit_utf8_def Let_def
           split: sum.splits if_splits)

lemma units_length:
  "units dat i = Inr (out, k) \<Longrightarrow> length out + i \<le> k"
proof (induction dat i arbitrary: out k rule: units.induct)
  case (1 dat i)
  show ?case
  proof (cases "i < length dat")
    case False
    with "1.prems" show ?thesis by (simp add: units.simps [of dat i])
  next
    case True
    with "1.prems" obtain bs i' rest where
      u: "unit_at dat i = Inr (bs, i')" and r: "units dat i' = Inr (rest, k)"
      and o: "out = bs @ rest"
      by (auto simp: units.simps [of dat i] split: sum.splits)
    from "1.IH" [OF True u refl r] unit_at_length [OF u] o show ?thesis by simp
  qed
qed

lemma output_length:
  assumes "utft_to_utf8 dat = Inr out"
  shows "length out \<le> length dat + 1"
proof -
  from assms obtain k where u: "units dat 0 = Inr (out, k)"
    by (auto simp: utft_to_utf8_units split: sum.splits)
  from units_end [where dat = dat and i = 0] u have "k \<le> length dat + 1"
    by (simp split: if_splits)
  with units_length [OF u] show ?thesis by simp
qed

text \<open>
  What the branch of four bytes stores: the first byte is always \<open>0xF0\<close>, and the second
  carries bits 13..12 of the code point.
\<close>

lemma wide_masks:
  "(0xF000 :: ulong) = push_bit 12 (mask 4)"
  "(0x3F00 :: ulong) = push_bit 8 (mask 6)"
  "(0xFC0 :: ulong) = push_bit 6 (mask 6)"
  by (simp_all add: mask_eq_exp_minus_1)

lemma branch_of_four_bytes:
  assumes "\<not> c < 0xFFFF"
  shows "sentinel_utf8 c =
    [0xF0, ucast (0x80 OR bits 13 12 c), ucast (0x80 OR bits 11 6 c), ucast (0x80 OR bits 5 0 c)]"
proof -
  have 1: "drop_bit 18 (c AND 0xF000) = 0"
    unfolding wide_masks by (rule bit_eqI) (auto simp add: bit_simps)
  have 2: "drop_bit 12 (c AND 0x3F00) = bits 13 12 c"
    unfolding wide_masks bits_def by (rule bit_eqI) (auto simp add: bit_simps)
  have 3: "drop_bit 6 (c AND 0xFC0) = bits 11 6 c"
    unfolding wide_masks bits_def by (rule bit_eqI) (auto simp add: bit_simps)
  show ?thesis
    unfolding sentinel_utf8_large [OF assms] 1 2 3 low_bits by simp
qed

section \<open>One iteration in a state of the loop\<close>

text \<open>
  A state that the loop reaches from \<open>init_state\<close> keeps 4 bytes of the buffer free, so that
  the bytes of the next unit are stored, and they stay in the output of the call.
\<close>

lemma iteration_buf_ok:
  assumes "buf_ok st" and "iteration dat st = Inr st'"
  shows "buf_ok st'"
proof (cases "unit_at dat (indexT st)")
  case (Inl e)
  with assms(2) show ?thesis by (simp add: iteration_err)
next
  case (Inr r)
  obtain bs i where "r = (bs, i)" by (cases r)
  with iteration_ok [OF assms(1), of dat bs i] Inr assms(2) show ?thesis by auto
qed

lemma loop_state:
  "(pass (length dat) dat ^^ k) (Inr init_state) = Inr st \<Longrightarrow>
   buf_ok st \<and> scan (length dat) dat init_state = scan (length dat) dat st"
proof (induction k arbitrary: st)
  case 0
  then show ?case by (simp add: buf_ok_init)
next
  case (Suc k)
  let ?r = "(pass (length dat) dat ^^ k) (Inr init_state)"
  from Suc.prems have p: "pass (length dat) dat ?r = Inr st" by simp
  then obtain s0 where r: "?r = Inr s0" by (cases ?r) (simp_all add: pass_def)
  from Suc.IH [OF r] have ok: "buf_ok s0"
    and sc: "scan (length dat) dat init_state = scan (length dat) dat s0" by simp_all
  show ?case
  proof (cases "indexT s0 < length dat")
    case False
    with p r have "st = s0" by (simp add: pass_def)
    with ok sc show ?thesis by simp
  next
    case True
    with p r have i: "iteration dat s0 = Inr st" by (simp add: pass_def)
    from iteration_buf_ok [OF ok i] have "buf_ok st" .
    moreover from True i have "scan (length dat) dat s0 = scan (length dat) dat st"
      by (simp add: scan.simps [of _ _ s0])
    ultimately show ?thesis using sc by simp
  qed
qed

lemma output_from_state:
  assumes "buf_ok st" and "scan (length dat) dat init_state = scan (length dat) dat st"
    and "utft_to_utf8 dat = Inr out"
  shows "\<exists>rest. out = written st @ rest"
  using scan_units [OF assms(1), of dat] assms(2,3)
  by (auto simp: utft_to_utf8_def VARSIZE_def written_def split: sum.splits)

lemma unit_step:
  assumes reach: "(pass (VARSIZE dat) dat ^^ k) (Inr init_state) = Inr st"
    and lt: "indexT st < VARSIZE dat"
    and u: "unit_at dat (indexT st) = Inr (bs, i)"
  shows "\<exists>st'. iteration dat st = Inr st' \<and> indexT st' = i \<and> written st' = written st @ bs \<and>
           (pass (VARSIZE dat) dat ^^ Suc k) (Inr init_state) = Inr st' \<and>
           scan (VARSIZE dat) dat st = scan (VARSIZE dat) dat st' \<and>
           (\<forall>out. utft_to_utf8 dat = Inr out \<longrightarrow> (\<exists>rest. out = written st @ bs @ rest))"
proof -
  from reach have r: "(pass (length dat) dat ^^ k) (Inr init_state) = Inr st"
    by (simp add: VARSIZE_def)
  from loop_state [OF r] have ok: "buf_ok st" by simp
  from iteration_ok [OF ok u] obtain st' where
    st': "iteration dat st = Inr st'" "indexT st' = i" "written st' = written st @ bs"
    by blast
  have next_state: "(pass (VARSIZE dat) dat ^^ Suc k) (Inr init_state) = Inr st'"
    using reach lt st'(1) by (simp add: pass_def)
  then have "(pass (length dat) dat ^^ Suc k) (Inr init_state) = Inr st'"
    by (simp add: VARSIZE_def)
  from loop_state [OF this]
  have ok': "buf_ok st'" and sc: "scan (length dat) dat init_state = scan (length dat) dat st'"
    by simp_all
  have "\<exists>rest. out = written st @ bs @ rest" if "utft_to_utf8 dat = Inr out" for out
    using output_from_state [OF ok' sc that] st'(3) by simp
  moreover have "scan (VARSIZE dat) dat st = scan (VARSIZE dat) dat st'"
    using lt st'(1) by (simp add: scan.simps [of _ _ st])
  ultimately show ?thesis using st' next_state by blast
qed

section \<open>Where the loop ends\<close>

lemma unit_at_Inl_iff:
  assumes "i < length dat"
  shows "(\<exists>e. unit_at dat i = Inl e) \<longleftrightarrow> dat ! i = 0x9B \<and> length dat \<le> i + 3"
  using assms by (auto simp: unit_at_def vl_dat_def split: if_splits)

lemma unit_at_overshoot_iff:
  assumes "i < length dat" and "unit_at dat i = Inr (bs, i')"
  shows "length dat < i' \<longleftrightarrow> i + 1 = length dat \<and> dat ! i AND 0x80 \<noteq> 0 \<and> dat ! i \<noteq> 0x9B"
  using assms by (auto simp: unit_at_def vl_dat_def split: if_splits)

lemma cursors_unfold:
  "i < length dat \<Longrightarrow> unit_at dat i = Inr (bs, i') \<Longrightarrow>
   set (cursors dat i) = insert i (set (cursors dat i'))"
  "i < length dat \<Longrightarrow> unit_at dat i = Inl e \<Longrightarrow> set (cursors dat i) = {i}"
  "\<not> i < length dat \<Longrightarrow> set (cursors dat i) = {}"
  by (simp_all add: cursors.simps [of dat i])

lemma units_past_end: "\<not> i < length dat \<Longrightarrow> units dat i = Inr ([], i)"
  by (simp add: units.simps [of dat i])

lemma units_error_iff:
  "(\<exists>e. units dat i = Inl e) \<longleftrightarrow>
   (\<exists>j\<in>set (cursors dat i). dat ! j = 0x9B \<and> length dat \<le> j + 3)"
proof (induction dat i rule: units.induct)
  case (1 dat i)
  show ?case
  proof (cases "i < length dat")
    case False
    then show ?thesis by (simp add: units.simps [of dat i] cursors_unfold)
  next
    case True
    show ?thesis
    proof (cases "unit_at dat i")
      case (Inl e)
      with unit_at_Inl_iff [OF True] have "dat ! i = 0x9B \<and> length dat \<le> i + 3" by simp
      with True Inl show ?thesis by (simp add: units.simps [of dat i] cursors_unfold)
    next
      case (Inr r)
      obtain bs i' where r: "r = (bs, i')" by (cases r)
      from unit_at_Inl_iff [OF True] Inr have n: "\<not> (dat ! i = 0x9B \<and> length dat \<le> i + 3)"
        by simp
      have "(\<exists>e. units dat i = Inl e) \<longleftrightarrow> (\<exists>e. units dat i' = Inl e)"
        using True Inr r by (auto simp: units.simps [of dat i] split: sum.splits)
      with "1.IH" [OF True Inr [unfolded r] refl] n True Inr r show ?thesis
        by (auto simp: cursors_unfold)
    qed
  qed
qed

lemma units_overshoot_iff:
  "i \<le> length dat \<Longrightarrow>
   (\<exists>out. units dat i = Inr (out, length dat + 1)) \<longleftrightarrow>
   (\<exists>j\<in>set (cursors dat i). j + 1 = length dat \<and> dat ! j AND 0x80 \<noteq> 0 \<and> dat ! j \<noteq> 0x9B)"
proof (induction dat i rule: units.induct)
  case (1 dat i)
  show ?case
  proof (cases "i < length dat")
    case False
    then have "units dat i = Inr ([], i)" by (simp add: units.simps [of dat i])
    with False "1.prems" show ?thesis by (simp add: cursors_unfold)
  next
    case True
    show ?thesis
    proof (cases "unit_at dat i")
      case (Inl e)
      with unit_at_Inl_iff [OF True] have "dat ! i = 0x9B" by auto
      with True Inl show ?thesis by (simp add: units.simps [of dat i] cursors_unfold)
    next
      case (Inr r)
      obtain bs i' where r: "r = (bs, i')" by (cases r)
      note u = Inr [unfolded r]
      note over = unit_at_overshoot_iff [OF True u]
      have step: "(\<exists>out. units dat i = Inr (out, length dat + 1)) \<longleftrightarrow>
          (\<exists>out. units dat i' = Inr (out, length dat + 1))"
        using True u by (auto simp: units.simps [of dat i] split: sum.splits)
      show ?thesis
      proof (cases "i' \<le> length dat")
        case le: True
        from "1.IH" [OF True u refl le] step over le True u show ?thesis
          by (auto simp: cursors_unfold)
      next
        case gt: False
        from unit_at_end [OF u] gt have i': "i' = length dat + 1" by simp
        with units_past_end [of i' dat] have "units dat i' = Inr ([], length dat + 1)" by simp
        with step over gt True u show ?thesis
          by (auto simp: cursors_unfold)
      qed
    qed
  qed
qed

lemma final_cursor_error_iff:
  "final_cursor dat = Inl OutOfBoundsRead \<longleftrightarrow>
   (\<exists>j\<in>set (cursors dat 0). dat ! j = 0x9B \<and> VARSIZE dat \<le> j + 3)"
proof -
  have "final_cursor dat = Inl OutOfBoundsRead \<longleftrightarrow> (\<exists>e. units dat 0 = Inl e)"
    using units_end [where dat = dat and i = 0]
    by (auto simp: final_cursor_units split: sum.splits)
  then show ?thesis by (simp add: units_error_iff VARSIZE_def)
qed

lemma final_cursor_overshoot_iff:
  "final_cursor dat = Inr (VARSIZE dat + 1) \<longleftrightarrow>
   (\<exists>j\<in>set (cursors dat 0).
      j + 1 = VARSIZE dat \<and> dat ! j AND 0x80 \<noteq> 0 \<and> dat ! j \<noteq> 0x9B)"
proof -
  have "final_cursor dat = Inr (VARSIZE dat + 1) \<longleftrightarrow>
      (\<exists>out. units dat 0 = Inr (out, length dat + 1))"
    by (auto simp: final_cursor_units VARSIZE_def split: sum.splits)
  then show ?thesis using units_overshoot_iff [of 0 dat] by (simp add: VARSIZE_def)
qed

lemma final_cursor_cases:
  "final_cursor dat = Inl OutOfBoundsRead \<or> final_cursor dat = Inr (VARSIZE dat) \<or>
   final_cursor dat = Inr (VARSIZE dat + 1)"
  using units_end [where dat = dat and i = 0]
  by (auto simp: final_cursor_units VARSIZE_def split: sum.splits if_splits)

lemma scan_is_over:
  "pass maxT dat (scan maxT dat st) = scan maxT dat st"
proof (induction maxT dat st rule: scan.induct)
  case (1 maxT dat st)
  show ?case
  proof (cases "indexT st < maxT")
    case False
    then show ?thesis by (simp add: scan.simps [of _ _ st] pass_def)
  next
    case True
    show ?thesis
    proof (cases "iteration dat st")
      case (Inl e)
      with True show ?thesis by (simp add: scan.simps [of _ _ st] pass_def)
    next
      case (Inr st')
      from "1.IH" [OF True Inr] True Inr show ?thesis by (simp add: scan.simps [of _ _ st])
    qed
  qed
qed

lemma iteration_exact:
  assumes reach: "(pass (VARSIZE dat) dat ^^ k) (Inr init_state) = Inr st"
    and lt: "indexT st < VARSIZE dat"
  shows "if dat ! indexT st = 0x9B \<and> VARSIZE dat \<le> indexT st + 3
         then iteration dat st = Inl OutOfBoundsRead
         else \<exists>st'. iteration dat st = Inr st' \<and>
                indexT st' = indexT st +
                  (if dat ! indexT st = 0x9B then 4
                   else if dat ! indexT st AND 0x80 \<noteq> 0 then 2 else 1)"
proof (cases "unit_at dat (indexT st)")
  case (Inl e)
  from lt have l: "indexT st < length dat" by (simp add: VARSIZE_def)
  from unit_at_Inl_iff [OF l] Inl have "dat ! indexT st = 0x9B \<and> length dat \<le> indexT st + 3"
    by simp
  with iteration_err [OF Inl] unit_at_error [OF Inl] show ?thesis by (simp add: VARSIZE_def)
next
  case (Inr r)
  obtain bs i where r: "r = (bs, i)" by (cases r)
  from lt have l: "indexT st < length dat" by (simp add: VARSIZE_def)
  from unit_at_Inl_iff [OF l] Inr have n: "\<not> (dat ! indexT st = 0x9B \<and> length dat \<le> indexT st + 3)"
    by simp
  have i: "i = indexT st +
      (if dat ! indexT st = 0x9B then 4 else if dat ! indexT st AND 0x80 \<noteq> 0 then 2 else 1)"
    using Inr [unfolded r] l by (auto simp: unit_at_def vl_dat_def split: if_splits)
  from unit_step [OF reach lt Inr [unfolded r]] obtain st' where
    "iteration dat st = Inr st'" "indexT st' = i" by blast
  with n i show ?thesis by (simp add: VARSIZE_def)
qed

section \<open>The claims\<close>

subsection \<open>The branch of four bytes\<close>

text \<open>
  C1: for a code point \<open>c \<ge> 0xFFFF\<close> the encode step appends 4 bytes of the pattern
  \<open>11110xxx 10xxxxxx 10xxxxxx 10xxxxxx\<close> whose payload is bits 20..18, 17..12, 11..6 and
  5..0 of \<open>c\<close>. The code masks \<open>c\<close> with \<open>0xF000\<close> before shifting by 18 and with
  \<open>0x3F00\<close> before shifting by 12, so that the first byte is always \<open>0xF0\<close> and the second
  carries bits 13..12 only. At U+E0100, whose UTF-T unit is \<open>9B F4 82 80\<close>, the call
  returns \<open>F0 80 84 80\<close> where the pattern of the claim is \<open>F3 A0 84 80\<close>.
\<close>

theorem four_byte_branch_loses_bits:
  "utft_encode 0xE0100 = [0x9B, 0xF4, 0x82, 0x80] \<and>
   sentinel_c 0xF4 0x82 0x80 = 0xE0100 \<and>
   utft_to_utf8 [0x9B, 0xF4, 0x82, 0x80] = Inr [0xF0, 0x80, 0x84, 0x80] \<and>
   utf8_4byte 0xE0100 = [0xF3, 0xA0, 0x84, 0x80]"
  by code_simp

text \<open>
  C2: the input \<open>9B C3 A2 9E\<close> gives the output \<open>F0 9D 84 9E\<close>, the UTF-8 encoding of
  U+1D11E. The unit decodes to \<open>0x1D11E\<close>, but the call returns \<open>F0 81 84 9E\<close>: the second
  byte has lost bits 17..14 of the code point.
\<close>

theorem clef_output:
  "utft_to_utf8 [0x9B, 0xC3, 0xA2, 0x9E] = Inr [0xF0, 0x81, 0x84, 0x9E] \<and>
   sentinel_c 0xC3 0xA2 0x9E = 0x1D11E \<and>
   utf8_4byte 0x1D11E = [0xF0, 0x9D, 0x84, 0x9E]"
  by code_simp

subsection \<open>ASCII\<close>

text \<open>
  C4: for every byte \<open>b < 0x80\<close>, the call on the single byte \<open>b\<close> returns the single byte
  \<open>b\<close>, and the cursor advances by exactly 1: the unit at cursor 0 ends at cursor 1, which
  is where the loop ends.
\<close>

theorem ascii_identity:
  assumes "b < 0x80"
  shows "utft_to_utf8 [b] = Inr [b] \<and> unit_at [b] 0 = Inr ([b], 1) \<and> final_cursor [b] = Inr 1"
proof -
  have u: "unit_at [b] 0 = Inr ([b], 1)"
    using unit_at_ascii [of 0 "[b]"] assms by simp
  from units_single [OF u] show ?thesis
    by (simp add: utft_to_utf8_units final_cursor_units u)
qed

theorem ascii_identity_witness:
  "(0x41 :: byte) < 0x80 \<and> utft_to_utf8 [0x41] = Inr [0x41] \<and> unit_at [0x41] 0 = Inr ([0x41], 1)
     \<and> final_cursor [0x41] = Inr 1"
  using ascii_identity [of "0x41"] by simp

subsection \<open>Encoding to UTF-T and back\<close>

text \<open>
  C8: for every code point \<open>c\<close> in \<open>[0, 0x10FFFF]\<close>, encoding \<open>c\<close> to UTF-T by the scheme
  and decoding the unit gives \<open>c\<close> back. An ASCII code point is one byte, which the unit
  passes on unchanged; any other is the unit \<open>9B b1 b2 b3\<close>, whose code point as line 96
  computes it is \<open>c\<close>, the value that goes into the encode step. The theorem does not need
  the exclusion of the surrogates.
\<close>

theorem utft_roundtrip:
  assumes "c \<le> 0x10FFFF"
  shows "if c < 0x80
         then \<exists>b. utft_encode c = [b] \<and> unit_at (utft_encode c) 0 = Inr ([b], 1) \<and> ucast b = c
         else \<exists>b1 b2 b3. utft_encode c = [0x9B, b1, b2, b3] \<and> sentinel_c b1 b2 b3 = c \<and>
                unit_at (utft_encode c) 0 = Inr (sentinel_utf8 c, 4)"
proof (cases "c < 0x80")
  case True
  let ?b = "ucast c :: byte"
  have "unit_at [?b] 0 = Inr ([?b], 1)"
    using unit_at_ascii [of 0 "[?b]"] ucast_ascii(2) [OF True] by simp
  with True ucast_ascii(1) [OF True] show ?thesis by (simp add: utft_encode_def)
next
  case False
  let ?p = "c + 0x0F0000"
  let ?b1 = "ucast (0x80 OR bits 20 14 ?p) :: byte"
  let ?b2 = "ucast (0x80 OR bits 13 7 ?p) :: byte"
  let ?b3 = "ucast (0x80 OR bits 6 0 ?p) :: byte"
  have e: "utft_encode c = [0x9B, ?b1, ?b2, ?b3]"
    using False by (simp add: utft_encode_def Let_def)
  have c: "sentinel_c ?b1 ?b2 ?b3 = c"
    by (simp only: sentinel_c_payload payload_encoded offset_fits [OF assms]) simp
  have "unit_at [0x9B, ?b1, ?b2, ?b3] 0 = Inr (sentinel_utf8 (sentinel_c ?b1 ?b2 ?b3), 0 + 4)"
    using unit_at_sentinel [of 0 "[0x9B, ?b1, ?b2, ?b3]"] by simp
  with c have "unit_at [0x9B, ?b1, ?b2, ?b3] 0 = Inr (sentinel_utf8 c, 4)" by simp
  with e c False show ?thesis by (simp only: if_False) blast
qed

theorem utft_roundtrip_witness:
  "(0x1D11E :: ulong) \<le> 0x10FFFF \<and> utft_encode 0x1D11E = [0x9B, 0xC3, 0xA2, 0x9E] \<and>
   sentinel_c 0xC3 0xA2 0x9E = 0x1D11E \<and>
   unit_at (utft_encode 0x1D11E) 0 = Inr (sentinel_utf8 0x1D11E, 4)"
proof -
  have e: "utft_encode 0x1D11E = [0x9B, 0xC3, 0xA2, 0x9E]" by code_simp
  have "(0x1D11E :: ulong) \<le> 0x10FFFF" and "\<not> (0x1D11E :: ulong) < 0x80" by simp_all
  with utft_roundtrip [of "0x1D11E"] e show ?thesis
    by auto
qed

subsection \<open>Two inputs, one after the other\<close>

text \<open>
  C7: decoding \<open>input1 @ input2\<close> gives the output of \<open>input1\<close> followed by the output of
  \<open>input2\<close>. As stated, for every pair of inputs, this fails: a byte with the high bit set
  at the end of \<open>input1\<close> makes the cursor skip the first byte of \<open>input2\<close>.
\<close>

theorem concat_breaks_units:
  "utft_to_utf8 ([0x80] @ [0x41]) \<noteq> append_results (utft_to_utf8 [0x80]) (utft_to_utf8 [0x41]) \<and>
   utft_to_utf8 ([0x80] @ [0x41]) = Inr [0xC2, 0x80] \<and>
   append_results (utft_to_utf8 [0x80]) (utft_to_utf8 [0x41]) = Inr [0xC2, 0x80, 0x41]"
  by code_simp

text \<open>
  C7, amended: when the scan of \<open>input1\<close> ends with the cursor at the length of \<open>input1\<close>,
  that is, \<open>input1\<close> ends where a unit ends, the call on \<open>input1 @ input2\<close> returns the
  output of \<open>input1\<close> followed by the output of \<open>input2\<close>, or the error of \<open>input2\<close>.
\<close>

theorem concat_at_unit_boundary:
  assumes "final_cursor input1 = Inr (length input1)"
  shows "utft_to_utf8 (input1 @ input2) =
         append_results (utft_to_utf8 input1) (utft_to_utf8 input2)"
proof -
  from assms obtain out1 where "units input1 0 = Inr (out1, length input1)"
    by (auto simp: final_cursor_units split: sum.splits)
  from units_append [OF this, of input2] this show ?thesis
    by (simp add: utft_to_utf8_units append_results_def split: sum.splits)
qed

theorem concat_at_unit_boundary_witness:
  "final_cursor [0x9B, 0xBC, 0x81, 0xE7] = Inr (length [0x9B, 0xBC, 0x81, 0xE7 :: byte]) \<and>
   utft_to_utf8 ([0x9B, 0xBC, 0x81, 0xE7] @ [0x41]) = Inr [0xC3, 0xA7, 0x41]"
proof -
  have f: "final_cursor [0x9B, 0xBC, 0x81, 0xE7] = Inr (length [0x9B, 0xBC, 0x81, 0xE7 :: byte])"
    by code_simp
  have e: "append_results (utft_to_utf8 [0x9B, 0xBC, 0x81, 0xE7]) (utft_to_utf8 [0x41])
         = Inr [0xC3, 0xA7, 0x41]"
    by code_simp
  from concat_at_unit_boundary [OF f, of "[0x41]"] f e show ?thesis by simp
qed

subsection \<open>The skipped byte\<close>

text \<open>
  C9: when the byte at a cursor position of the call has its high bit set and is not
  \<open>0x9B\<close>, the output of the call is the same whatever the byte at the following position
  is: two inputs that differ only in that byte have the same output.
\<close>

theorem skipped_byte_has_no_influence:
  assumes "i \<in> set (cursors dat 0)" and "dat ! i AND 0x80 \<noteq> 0" and "dat ! i \<noteq> 0x9B"
  shows "utft_to_utf8 (dat[i + 1 := v]) = utft_to_utf8 dat"
  using units_skipped_byte [OF assms] by (simp add: utft_to_utf8_units)

theorem skipped_byte_has_no_influence_witness:
  "1 \<in> set (cursors [0x41, 0xE9, 0x42, 0x43] 0) \<and>
   [0x41, 0xE9, 0x42, 0x43 :: byte] ! 1 AND 0x80 \<noteq> 0 \<and> [0x41, 0xE9, 0x42, 0x43 :: byte] ! 1 \<noteq> 0x9B \<and>
   utft_to_utf8 [0x41, 0xE9, 0x9B, 0x43] = utft_to_utf8 [0x41, 0xE9, 0x42, 0x43] \<and>
   utft_to_utf8 [0x41, 0xE9, 0x42, 0x43] = Inr [0x41, 0xC3, 0xA9, 0x43]"
proof -
  let ?dat = "[0x41, 0xE9, 0x42, 0x43 :: byte]"
  have c: "1 \<in> set (cursors ?dat 0)" by code_simp
  have h: "?dat ! 1 AND 0x80 \<noteq> 0" "?dat ! 1 \<noteq> 0x9B" by simp_all
  have e: "utft_to_utf8 ?dat = Inr [0x41, 0xC3, 0xA9, 0x43]" by code_simp
  from skipped_byte_has_no_influence [OF c h, of "0x9B"] c h e show ?thesis by simp
qed

subsection \<open>The unit of the sentinel\<close>

text \<open>
  C3: at every input position where the byte at the cursor is \<open>0x9B\<close> the decoder reads the
  next three bytes \<open>b1\<close>, \<open>b2\<close>, \<open>b3\<close>, computes the code point
  \<open>((b1&0x7F)<<14 | (b2&0x7F)<<7 | (b3&0x7F)) - 0x0F0000\<close> and advances the cursor by
  exactly 4. As stated, for every such position, this fails: where fewer than three bytes
  follow the sentinel the three reads leave the input, no code point is computed from
  bytes of the input and the call has no result.
\<close>

theorem truncated_sentinel_unit:
  "0 \<in> set (cursors [0x9B, 0xBC, 0x81] 0) \<and> [0x9B, 0xBC, 0x81 :: byte] ! 0 = 0x9B \<and>
   unit_at [0x9B, 0xBC, 0x81] 0 = Inl OutOfBoundsRead \<and>
   iteration [0x9B, 0xBC, 0x81] init_state = Inl OutOfBoundsRead \<and>
   utft_to_utf8 [0x9B, 0xBC, 0x81] = Inl OutOfBoundsRead"
  by code_simp

text \<open>
  C3, amended: in every state of the loop whose cursor is at a byte \<open>0x9B\<close> that at least
  three bytes of the input follow, the iteration reads the three bytes \<open>b1\<close>, \<open>b2\<close>, \<open>b3\<close>,
  computes the code point \<open>((b1&0x7F)<<14 | (b2&0x7F)<<7 | (b3&0x7F)) - 0x0F0000\<close>, stores
  the bytes of the encode step for it after the bytes stored so far, and leaves \<open>indexT\<close>
  advanced by exactly 4; the state after it is the next state of the loop, and the bytes
  are in every output of the call.
\<close>

theorem sentinel_unit:
  assumes "(pass (VARSIZE dat) dat ^^ k) (Inr init_state) = Inr st"
    and "indexT st + 3 < VARSIZE dat" and "dat ! indexT st = 0x9B"
    and "dat ! (indexT st + 1) = b1" and "dat ! (indexT st + 2) = b2"
    and "dat ! (indexT st + 3) = b3"
  shows "sentinel_c b1 b2 b3 = payload b1 b2 b3 - 0x0F0000 \<and>
         (\<exists>st'. iteration dat st = Inr st' \<and> indexT st' = indexT st + 4 \<and>
            written st' = written st @ sentinel_utf8 (payload b1 b2 b3 - 0x0F0000) \<and>
            (pass (VARSIZE dat) dat ^^ Suc k) (Inr init_state) = Inr st' \<and>
            scan (VARSIZE dat) dat st = scan (VARSIZE dat) dat st' \<and>
            (\<forall>out. utft_to_utf8 dat = Inr out \<longrightarrow>
               (\<exists>rest. out = written st @ sentinel_utf8 (payload b1 b2 b3 - 0x0F0000) @ rest)))"
proof -
  from assms(2) have lt: "indexT st < VARSIZE dat" and l3: "indexT st + 3 < length dat"
    by (simp_all add: VARSIZE_def)
  have "unit_at dat (indexT st) =
      Inr (sentinel_utf8 (payload b1 b2 b3 - 0x0F0000), indexT st + 4)"
    using unit_at_sentinel [OF l3 assms(3)] assms(4-6) by (simp add: sentinel_c_payload)
  from unit_step [OF assms(1) lt this] show ?thesis
    by (simp add: sentinel_c_payload)
qed

theorem sentinel_unit_witness:
  "(\<exists>st'. iteration [0x41, 0x9B, 0xBC, 0xC1, 0xAC]
            \<lparr>indexT = 1, index8 = 1, bufsize = 512, buffer = (palloc 512)[0 := 0x41]\<rparr> = Inr st' \<and>
          indexT st' = 5 \<and> written st' = [0x41, 0xE2, 0x82, 0xAC]) \<and>
   utft_to_utf8 [0x41, 0x9B, 0xBC, 0xC1, 0xAC] = Inr [0x41, 0xE2, 0x82, 0xAC]"
proof -
  let ?dat = "[0x41, 0x9B, 0xBC, 0xC1, 0xAC :: byte]"
  let ?st = "\<lparr>indexT = 1, index8 = 1, bufsize = 512, buffer = (palloc 512)[0 := 0x41]\<rparr>"
  have r: "(pass (VARSIZE ?dat) ?dat ^^ Suc 0) (Inr init_state) = Inr ?st" by code_simp
  have d: "indexT ?st + 3 < VARSIZE ?dat" "?dat ! indexT ?st = 0x9B"
    "?dat ! (indexT ?st + 1) = 0xBC" "?dat ! (indexT ?st + 2) = 0xC1"
    "?dat ! (indexT ?st + 3) = 0xAC" by (simp_all add: VARSIZE_def)
  have e: "sentinel_utf8 (payload 0xBC 0xC1 0xAC - 0x0F0000) = [0xE2, 0x82, 0xAC]"
    "written ?st = [0x41]" by code_simp+
  have o: "utft_to_utf8 ?dat = Inr [0x41, 0xE2, 0x82, 0xAC]" by code_simp
  from sentinel_unit [OF r d] obtain st' where
    "iteration ?dat ?st = Inr st'" "indexT st' = indexT ?st + 4"
    "written st' = written ?st @ sentinel_utf8 (payload 0xBC 0xC1 0xAC - 0x0F0000)"
    by blast
  with e o show ?thesis by simp
qed

text \<open>
  C10: when the 21-bit payload of a sentinel unit is below \<open>0x0F0000\<close>, the subtraction
  wraps around modulo \<open>2^64\<close>: the code point is the payload plus \<open>2^64 - 0x0F0000\<close>, far
  above \<open>0x10FFFF\<close>. The iteration reports no error: it stores the four bytes of the last
  branch of the encode step after the bytes stored so far, advances \<open>indexT\<close> by 4, and the
  four bytes are in every output of the call.
\<close>

theorem sentinel_wraps:
  assumes "(pass (VARSIZE dat) dat ^^ k) (Inr init_state) = Inr st"
    and "indexT st + 3 < VARSIZE dat" and "dat ! indexT st = 0x9B"
    and "dat ! (indexT st + 1) = b1" and "dat ! (indexT st + 2) = b2"
    and "dat ! (indexT st + 3) = b3"
    and "payload b1 b2 b3 < 0x0F0000"
  shows "unat (sentinel_c b1 b2 b3) = unat (payload b1 b2 b3) + 2 ^ 64 - 0x0F0000 \<and>
         0x10FFFF < sentinel_c b1 b2 b3 \<and>
         sentinel_utf8 (sentinel_c b1 b2 b3) =
           [ucast (0xF0 OR drop_bit 18 (sentinel_c b1 b2 b3 AND 0xF000)),
            ucast (push_bit 6 0x02 OR drop_bit 12 (sentinel_c b1 b2 b3 AND 0x3F00)),
            ucast (push_bit 6 0x02 OR drop_bit 6 (sentinel_c b1 b2 b3 AND 0xFC0)),
            ucast (push_bit 6 0x02 OR (sentinel_c b1 b2 b3 AND 0x3F))] \<and>
         (\<exists>st'. iteration dat st = Inr st' \<and> indexT st' = indexT st + 4 \<and>
            written st' = written st @ sentinel_utf8 (sentinel_c b1 b2 b3) \<and>
            (pass (VARSIZE dat) dat ^^ Suc k) (Inr init_state) = Inr st' \<and>
            scan (VARSIZE dat) dat st = scan (VARSIZE dat) dat st' \<and>
            (\<forall>out. utft_to_utf8 dat = Inr out \<longrightarrow>
               (\<exists>rest. out = written st @ sentinel_utf8 (sentinel_c b1 b2 b3) @ rest)))"
proof -
  let ?c = "sentinel_c b1 b2 b3"
  from assms(2) have lt: "indexT st < VARSIZE dat" and l3: "indexT st + 3 < length dat"
    by (simp_all add: VARSIZE_def)
  have w: "unat ?c = unat (payload b1 b2 b3) + 2 ^ 64 - 0x0F0000"
    using assms(7) by (rule sentinel_c_wrapped)
  have "unat (payload b1 b2 b3) < 0x0F0000"
    using assms(7) by (simp add: word_less_nat_alt)
  with w have big: "0x10FFFF < ?c" and nl: "\<not> ?c < 0xFFFF"
    by (simp_all add: word_less_nat_alt)
  note enc = sentinel_utf8_large [OF nl]
  have "unit_at dat (indexT st) = Inr (sentinel_utf8 ?c, indexT st + 4)"
    using unit_at_sentinel [OF l3 assms(3)] assms(4-6) by simp
  from unit_step [OF assms(1) lt this] w big enc show ?thesis by (intro conjI)
qed

theorem sentinel_wraps_witness:
  "payload 0x80 0x80 0x81 < 0x0F0000 \<and>
   unat (sentinel_c 0x80 0x80 0x81) = 18446744073708568577 \<and>
   0x10FFFF < sentinel_c 0x80 0x80 0x81 \<and>
   (\<exists>st'. iteration [0x9B, 0x80, 0x80, 0x81] init_state = Inr st' \<and> indexT st' = 4 \<and>
          written st' = [0xF0, 0x80, 0x80, 0x81]) \<and>
   utft_to_utf8 [0x9B, 0x80, 0x80, 0x81] = Inr [0xF0, 0x80, 0x80, 0x81]"
proof -
  let ?dat = "[0x9B, 0x80, 0x80, 0x81 :: byte]"
  let ?c = "0xFFFFFFFFFFF10001 :: ulong"
  have r: "(pass (VARSIZE ?dat) ?dat ^^ 0) (Inr init_state) = Inr init_state" by simp
  have p: "payload 0x80 0x80 0x81 < 0x0F0000" by code_simp
  have d: "indexT init_state + 3 < VARSIZE ?dat" "?dat ! indexT init_state = 0x9B"
    "?dat ! (indexT init_state + 1) = 0x80" "?dat ! (indexT init_state + 2) = 0x80"
    "?dat ! (indexT init_state + 3) = 0x81" by (simp_all add: VARSIZE_def init_state_def)
  have c: "sentinel_c 0x80 0x80 0x81 = ?c" by code_simp
  have e: "sentinel_utf8 ?c = [0xF0, 0x80, 0x80, 0x81]" "written init_state = []"
    "indexT init_state = 0" by code_simp+
  have o: "utft_to_utf8 ?dat = Inr [0xF0, 0x80, 0x80, 0x81]" by code_simp
  from sentinel_wraps [OF r d p] obtain st' where
    "unat (sentinel_c 0x80 0x80 0x81) = unat (payload 0x80 0x80 0x81) + 2 ^ 64 - 0x0F0000"
    "0x10FFFF < sentinel_c 0x80 0x80 0x81"
    "iteration ?dat init_state = Inr st'" "indexT st' = indexT init_state + 4"
    "written st' = written init_state @ sentinel_utf8 (sentinel_c 0x80 0x80 0x81)"
    by blast
  with p e o c show ?thesis by simp
qed

subsection \<open>The unit of a byte with the high bit set\<close>

text \<open>
  C5: in every state of the loop whose cursor is at a byte \<open>b\<close> with the high bit set and
  other than \<open>0x9B\<close>, the iteration takes \<open>b\<close> itself as the code point, stores its UTF-8
  encoding in two bytes after the bytes stored so far, and leaves \<open>indexT\<close> advanced by
  exactly 2; the two bytes are in every output of the call. The byte after \<open>b\<close> is not
  read: it need not exist, and the iteration ends in the same state whatever it is.
\<close>

theorem highbit_unit:
  assumes "(pass (VARSIZE dat) dat ^^ k) (Inr init_state) = Inr st"
    and "indexT st < VARSIZE dat"
    and "dat ! indexT st AND 0x80 \<noteq> 0" and "dat ! indexT st \<noteq> 0x9B"
  shows "\<exists>st'. iteration dat st = Inr st' \<and> indexT st' = indexT st + 2 \<and>
           written st' = written st @ utf8_2byte (ucast (dat ! indexT st)) \<and>
           (pass (VARSIZE dat) dat ^^ Suc k) (Inr init_state) = Inr st' \<and>
           scan (VARSIZE dat) dat st = scan (VARSIZE dat) dat st' \<and>
           (\<forall>out. utft_to_utf8 dat = Inr out \<longrightarrow>
              (\<exists>rest. out = written st @ utf8_2byte (ucast (dat ! indexT st)) @ rest)) \<and>
           (\<forall>v. iteration (dat[indexT st + 1 := v]) st = Inr st')"
proof -
  from assms(2) have lt: "indexT st < length dat" by (simp add: VARSIZE_def)
  have u: "unit_at dat (indexT st) = Inr (utf8_2byte (ucast (dat ! indexT st)), indexT st + 2)"
    using unit_at_highbit [OF lt assms(3,4)] by (simp add: highbit_utf8_eq)
  have "unit_at (dat[indexT st + 1 := v]) (indexT st) = unit_at dat (indexT st)" for v
    using lt assms(3,4) unit_at_highbit [of "indexT st" "dat[indexT st + 1 := v]"]
      unit_at_highbit [OF lt assms(3,4)] by simp
  then have "iteration (dat[indexT st + 1 := v]) st = iteration dat st" for v
    by (simp add: iteration_def)
  with unit_step [OF assms(1,2) u] show ?thesis by auto
qed

theorem highbit_unit_witness:
  "(\<exists>st'. iteration [0x41, 0xE9, 0x42]
            \<lparr>indexT = 1, index8 = 1, bufsize = 512, buffer = (palloc 512)[0 := 0x41]\<rparr> = Inr st' \<and>
          indexT st' = 3 \<and> written st' = [0x41, 0xC3, 0xA9] \<and>
          iteration [0x41, 0xE9, 0x9B]
            \<lparr>indexT = 1, index8 = 1, bufsize = 512, buffer = (palloc 512)[0 := 0x41]\<rparr> = Inr st') \<and>
   utft_to_utf8 [0x41, 0xE9, 0x42] = Inr [0x41, 0xC3, 0xA9]"
proof -
  let ?dat = "[0x41, 0xE9, 0x42 :: byte]"
  let ?st = "\<lparr>indexT = 1, index8 = 1, bufsize = 512, buffer = (palloc 512)[0 := 0x41]\<rparr>"
  have r: "(pass (VARSIZE ?dat) ?dat ^^ Suc 0) (Inr init_state) = Inr ?st" by code_simp
  have d: "indexT ?st < VARSIZE ?dat" "?dat ! indexT ?st AND 0x80 \<noteq> 0" "?dat ! indexT ?st \<noteq> 0x9B"
    by (simp_all add: VARSIZE_def)
  have e: "utf8_2byte (ucast (?dat ! indexT ?st)) = [0xC3, 0xA9]" "written ?st = [0x41]"
    "?dat[indexT ?st + 1 := 0x9B] = [0x41, 0xE9, 0x9B]"
    by code_simp+
  have o: "utft_to_utf8 ?dat = Inr [0x41, 0xC3, 0xA9]" by code_simp
  from highbit_unit [OF r d] obtain st' where
    s: "iteration ?dat ?st = Inr st'" "indexT st' = indexT ?st + 2"
    "written st' = written ?st @ utf8_2byte (ucast (?dat ! indexT ?st))"
    and v: "\<forall>v. iteration (?dat[indexT ?st + 1 := v]) ?st = Inr st'"
    by blast
  from v have "iteration (?dat[indexT ?st + 1 := 0x9B]) ?st = Inr st'" by (rule spec)
  with s e o show ?thesis by simp
qed

subsection \<open>The end of the loop\<close>

text \<open>
  C6: for every input of length \<open>N\<close> the cursor strictly increases by 1, 2 or 4 on each
  iteration, the loop terminates, and it terminates when the cursor reaches \<open>N\<close>, exactly
  when all input bytes are consumed. As stated this fails: the loop ends when the cursor
  is \<open>N\<close> or more, and a byte with the high bit set at the last position moves the
  cursor from \<open>N - 1\<close> to \<open>N + 1\<close>.
\<close>

theorem cursor_passes_the_end:
  "final_cursor [0x80] = Inr 2 \<and> VARSIZE [0x80] = 1 \<and> final_cursor [0x80] \<noteq> Inr (VARSIZE [0x80])"
  by code_simp

text \<open>
  C6, amended: for every input of length \<open>N\<close>,
  \<^item> an iteration in a state of the loop reads past the input exactly when its cursor is
    at a byte \<open>0x9B\<close> that fewer than three bytes follow, and otherwise advances the cursor
    by exactly 4 at a byte \<open>0x9B\<close>, by 2 at another byte with the high bit set and by 1 at
    an ASCII byte; in any state, an iteration that completes advances it by 1, 2 or 4;
  \<^item> the loop is over after at most \<open>N\<close> tests of its condition, each followed by the body
    where it holds, and then the condition is false or the read past the input has
    happened;
  \<^item> the result is the read past the input exactly when some cursor position holds a
    \<open>0x9B\<close> that fewer than three bytes follow; otherwise the loop ends with the cursor at
    \<open>N + 1\<close> exactly when the last byte is at a cursor position, has the high bit set and
    is not \<open>0x9B\<close>, and with the cursor at \<open>N\<close> in every other case.
\<close>

theorem scan_terminates:
  "(\<forall>k st. (pass (VARSIZE dat) dat ^^ k) (Inr init_state) = Inr st \<and> indexT st < VARSIZE dat \<longrightarrow>
      (if dat ! indexT st = 0x9B \<and> VARSIZE dat \<le> indexT st + 3
       then iteration dat st = Inl OutOfBoundsRead
       else \<exists>st'. iteration dat st = Inr st' \<and>
              indexT st' = indexT st +
                (if dat ! indexT st = 0x9B then 4
                 else if dat ! indexT st AND 0x80 \<noteq> 0 then 2 else 1))) \<and>
   (\<forall>st st'. iteration dat st = Inr st' \<longrightarrow>
      indexT st' = indexT st + 1 \<or> indexT st' = indexT st + 2 \<or> indexT st' = indexT st + 4) \<and>
   (\<exists>k\<le>VARSIZE dat.
      (pass (VARSIZE dat) dat ^^ k) (Inr init_state) = scan (VARSIZE dat) dat init_state) \<and>
   pass (VARSIZE dat) dat (scan (VARSIZE dat) dat init_state) = scan (VARSIZE dat) dat init_state \<and>
   final_cursor dat =
     (if \<exists>j\<in>set (cursors dat 0). dat ! j = 0x9B \<and> VARSIZE dat \<le> j + 3
      then Inl OutOfBoundsRead
      else if \<exists>j\<in>set (cursors dat 0).
                j + 1 = VARSIZE dat \<and> dat ! j AND 0x80 \<noteq> 0 \<and> dat ! j \<noteq> 0x9B
      then Inr (VARSIZE dat + 1)
      else Inr (VARSIZE dat))"
proof (intro conjI allI impI)
  fix k st
  assume "(pass (VARSIZE dat) dat ^^ k) (Inr init_state) = Inr st \<and> indexT st < VARSIZE dat"
  then show "if dat ! indexT st = 0x9B \<and> VARSIZE dat \<le> indexT st + 3
       then iteration dat st = Inl OutOfBoundsRead
       else \<exists>st'. iteration dat st = Inr st' \<and>
              indexT st' = indexT st +
                (if dat ! indexT st = 0x9B then 4
                 else if dat ! indexT st AND 0x80 \<noteq> 0 then 2 else 1)"
    using iteration_exact [where dat = dat and k = k and st = st] by blast
next
  fix st st' assume "iteration dat st = Inr st'"
  then show "indexT st' = indexT st + 1 \<or> indexT st' = indexT st + 2 \<or> indexT st' = indexT st + 4"
    by (rule iteration_cursor)
next
  from scan_passes [where maxT = "VARSIZE dat" and st = init_state and dat = dat]
  show "\<exists>k\<le>VARSIZE dat.
      (pass (VARSIZE dat) dat ^^ k) (Inr init_state) = scan (VARSIZE dat) dat init_state"
    by (simp add: init_state_def)
next
  show "pass (VARSIZE dat) dat (scan (VARSIZE dat) dat init_state) =
      scan (VARSIZE dat) dat init_state"
    by (rule scan_is_over)
next
  show "final_cursor dat =
     (if \<exists>j\<in>set (cursors dat 0). dat ! j = 0x9B \<and> VARSIZE dat \<le> j + 3
      then Inl OutOfBoundsRead
      else if \<exists>j\<in>set (cursors dat 0).
                j + 1 = VARSIZE dat \<and> dat ! j AND 0x80 \<noteq> 0 \<and> dat ! j \<noteq> 0x9B
      then Inr (VARSIZE dat + 1)
      else Inr (VARSIZE dat))"
    using final_cursor_error_iff [of dat] final_cursor_overshoot_iff [of dat]
      final_cursor_cases [of dat]
    by (simp split: if_splits) blast
qed

theorem scan_terminates_witness:
  "(\<exists>st'. iteration [0x41, 0x80] init_state = Inr st' \<and> indexT st' = 1) \<and>
   final_cursor [0x41, 0x80] = Inr 3"
proof -
  let ?dat = "[0x41, 0x80 :: byte]"
  have r: "(pass (VARSIZE ?dat) ?dat ^^ 0) (Inr init_state) = Inr init_state \<and>
      indexT init_state < VARSIZE ?dat"
    by (simp add: VARSIZE_def init_state_def)
  have c: "set (cursors ?dat 0) = {0, 1}" by code_simp
  have i: "indexT init_state = 0" by (simp add: init_state_def)
  from scan_terminates [of ?dat] r
  have "if ?dat ! indexT init_state = 0x9B \<and> VARSIZE ?dat \<le> indexT init_state + 3
       then iteration ?dat init_state = Inl OutOfBoundsRead
       else \<exists>st'. iteration ?dat init_state = Inr st' \<and>
              indexT st' = indexT init_state +
                (if ?dat ! indexT init_state = 0x9B then 4
                 else if ?dat ! indexT init_state AND 0x80 \<noteq> 0 then 2 else 1)"
    by blast
  then have a: "\<exists>st'. iteration ?dat init_state = Inr st' \<and> indexT st' = 1"
    by (simp add: i)
  from scan_terminates [of ?dat]
  have "final_cursor ?dat =
     (if \<exists>j\<in>set (cursors ?dat 0). ?dat ! j = 0x9B \<and> VARSIZE ?dat \<le> j + 3
      then Inl OutOfBoundsRead
      else if \<exists>j\<in>set (cursors ?dat 0).
                j + 1 = VARSIZE ?dat \<and> ?dat ! j AND 0x80 \<noteq> 0 \<and> ?dat ! j \<noteq> 0x9B
      then Inr (VARSIZE ?dat + 1)
      else Inr (VARSIZE ?dat))"
    by blast
  then have "final_cursor ?dat = Inr 3"
    unfolding c by (simp add: VARSIZE_def)
  with a show ?thesis by simp
qed

end
